theory Spec2Isabelle
  imports Main "HOL-Library.Word" "HOL-Library.Signed_Division"
begin

section \<open>Data model of api.go\<close>

text \<open>
  Go's \<open>int\<close> is modelled as a mathematical integer on which every arithmetic result is
  wrapped to the 64-bit two's complement range by \<open>int64\<close> (the size of \<open>int\<close> on 64-bit
  targets). \<open>rune\<close> is a 32-bit value and \<open>Attribute\<close> a 16-bit value.
\<close>

definition int64 :: "int \<Rightarrow> int" where
  "int64 n = (n + 9223372036854775808) mod 18446744073709551616 - 9223372036854775808"

definition in_int64 :: "int \<Rightarrow> bool" where
  "in_int64 n = (- 9223372036854775808 \<le> n \<and> n < 9223372036854775808)"

type_synonym Attribute = "16 word"

record Cell =
  Ch :: "32 word"
  Fg :: Attribute
  Bg :: Attribute

text \<open>
  The cell buffer type is used by api.go through its fields \<open>width\<close>, \<open>height\<close> and
  \<open>cells\<close>. A slice is a list; its capacity is taken to be its length.
\<close>

record cellbuf =
  width :: int
  height :: int
  cells :: "Cell list"

text \<open>The run-time panics that the indexing, slicing and division of api.go can raise.\<close>

datatype panic = DivideByZero | IndexOutOfRange | SliceBoundsOutOfRange

text \<open>
  The capability indices that api.go passes to the \<open>funcs\<close> table. What is appended to
  the output buffer is recorded as the write performed: \<open>WriteString t\<close> for
  \<open>outbuf.WriteString(funcs[t])\<close>, \<open>Fprintf t args\<close> for
  \<open>fmt.Fprintf(&outbuf, funcs[t], args...)\<close>, and the two writes of the helpers that are
  modelled from the specification below.
\<close>

datatype capability =
  t_enter_ca | t_exit_ca | t_show_cursor | t_hide_cursor | t_clear_screen
  | t_sgr0 | t_enter_keypad | t_exit_keypad | t_move_cursor

datatype out_item =
  WriteString capability
  | Fprintf capability "int list"
  | AttrChange Attribute Attribute
  | CharBytes "32 word"

text \<open>
  The package-level variables that the functions of api.go read and write. The draw-side
  resize channel has capacity one, so it is a flag; \<open>term_size\<close> is what the geometry
  query of the terminal would answer (columns, rows); \<open>out\<close> is the sequence of writes
  made to the terminal device.
\<close>

record session =
  back_buffer :: cellbuf
  front_buffer :: cellbuf
  termw :: int
  termh :: int
  input_mode :: int
  cursor_x :: int
  cursor_y :: int
  lastx :: int
  lasty :: int
  lastfg :: Attribute
  lastbg :: Attribute
  foreground :: Attribute
  background :: Attribute
  outbuf :: "out_item list"
  out :: "out_item list list"
  sigwinch_draw :: bool
  term_size :: "nat \<times> nat"

definition InputCurrent :: int where "InputCurrent = 0"
definition InputEsc :: int where "InputEsc = 1"
definition InputAlt :: int where "InputAlt = 2"

text \<open>HideCursor is documented as the shortcut for SetCursor(-1, -1).\<close>

definition cursor_hidden :: int where "cursor_hidden = - 1"

section \<open>Buffer write operations\<close>

definition PutCell :: "session \<Rightarrow> int \<Rightarrow> int \<Rightarrow> Cell \<Rightarrow> (panic \<times> session) + session" where
  "PutCell s x y cell =
     (let bb = back_buffer s in
      if x < 0 \<or> x \<ge> width bb then Inr s
      else if y < 0 \<or> y \<ge> height bb then Inr s
      else
        let idx = int64 (int64 (y * width bb) + x) in
        if 0 \<le> idx \<and> idx < int (length (cells bb))
        then Inr (s\<lparr>back_buffer := bb\<lparr>cells := (cells bb)[nat idx := cell]\<rparr>\<rparr>)
        else Inl (IndexOutOfRange, s))"

definition ChangeCell :: "session \<Rightarrow> int \<Rightarrow> int \<Rightarrow> 32 word \<Rightarrow> Attribute \<Rightarrow> Attribute
    \<Rightarrow> (panic \<times> session) + session" where
  "ChangeCell s x y ch fg bg = (let c = \<lparr>Ch = ch, Fg = fg, Bg = bg\<rparr> in PutCell s x y c)"

text \<open>
  A slice expression \<open>a[lo:hi]\<close> panics unless \<open>0 \<le> lo \<le> hi \<le> cap(a)\<close>.
\<close>

definition slice_ok :: "'a list \<Rightarrow> int \<Rightarrow> int \<Rightarrow> bool" where
  "slice_ok a lo hi = (0 \<le> lo \<and> lo \<le> hi \<and> hi \<le> int (length a))"

text \<open>
  \<open>copy(dst[dlo:dhi], src[slo:shi])\<close> overwrites, inside \<open>dst\<close>, as many elements as the
  shorter of the two slices has.
\<close>

definition copy_slice :: "'a list \<Rightarrow> int \<Rightarrow> int \<Rightarrow> 'a list \<Rightarrow> int \<Rightarrow> int \<Rightarrow> 'a list" where
  "copy_slice dst dlo dhi src slo shi =
     (let n = min (nat (dhi - dlo)) (nat (shi - slo)) in
      take (nat dlo) dst @ take n (drop (nat slo) src) @ drop (nat dlo + n) dst)"

text \<open>
  The loop of Blit. The counter satisfies \<open>i < h\<close> with \<open>h\<close> a machine integer when it is
  incremented, so \<open>i++\<close> cannot wrap; \<open>dsti\<close> and \<open>srci\<close> can. The left slice is
  evaluated first. A panic leaves the rows copied so far in the destination.
\<close>

function blit_loop :: "int \<Rightarrow> int \<Rightarrow> int \<Rightarrow> int \<Rightarrow> Cell list \<Rightarrow> int \<Rightarrow> int \<Rightarrow> Cell list
    \<Rightarrow> (panic \<times> Cell list) + Cell list" where
  "blit_loop i h w bw src dsti srci dst =
     (if i < h then
        (if \<not> slice_ok dst dsti (int64 (dsti + w)) then Inl (SliceBoundsOutOfRange, dst)
         else if \<not> slice_ok src srci (int64 (srci + w)) then Inl (SliceBoundsOutOfRange, dst)
         else blit_loop (i + 1) h w bw src (int64 (dsti + bw)) (int64 (srci + w))
                (copy_slice dst dsti (int64 (dsti + w)) src srci (int64 (srci + w))))
      else Inr dst)"
  by pat_completeness auto
termination
  by (relation "measure (\<lambda>(i, h, w, bw, src, dsti, srci, dst). nat (h - i))") auto

declare blit_loop.simps [simp del]

definition Blit :: "session \<Rightarrow> int \<Rightarrow> int \<Rightarrow> int \<Rightarrow> Cell list \<Rightarrow> (panic \<times> session) + session" where
  "Blit s x y w cs =
     (if w = 0 then Inl (DivideByZero, s)
      else
        let bb = back_buffer s;
            h = int64 (int (length cs) sdiv w) in
        if int64 (x + w) > width bb \<or> x < 0 then Inr s
        else if int64 (y + h) > height bb \<or> y < 0 then Inr s
        else
          let dsti = int64 (int64 (y * width bb) + x) in
          (case blit_loop 0 h w (width bb) cs dsti 0 (cells bb) of
             Inl (p, d) \<Rightarrow> Inl (p, s\<lparr>back_buffer := bb\<lparr>cells := d\<rparr>\<rparr>)
           | Inr d \<Rightarrow> Inr (s\<lparr>back_buffer := bb\<lparr>cells := d\<rparr>\<rparr>)))"

section \<open>Input mode\<close>

definition SetInputMode :: "session \<Rightarrow> int \<Rightarrow> session \<times> int" where
  "SetInputMode s mode =
     (let s1 = (if mode \<noteq> InputCurrent then s\<lparr>input_mode := mode\<rparr> else s)
      in (s1, input_mode s1))"

section \<open>Helpers that api.go calls and that are defined elsewhere in the package\<close>

text \<open>
  Modelled from the spec: the marker that Present stores in \<open>lastx\<close> and \<open>lasty\<close> to
  invalidate the last emitted cursor position is not defined in api.go; it is a
  coordinate that no cell has.
\<close>

definition coord_invalid :: int where "coord_invalid = - 2"

text \<open>
  Modelled from the spec: the test for the hidden cursor is not defined in api.go. The
  operations below take it as the parameter \<open>is_cursor_hidden\<close>, so that what is proved
  of them holds for whichever test the package uses. This one, the sentinel as a pair, is
  used to run them.
\<close>

definition hidden_pair :: "int \<Rightarrow> int \<Rightarrow> bool" where
  "hidden_pair x y = (x = cursor_hidden \<and> y = cursor_hidden)"

text \<open>
  Modelled from the spec: the cell buffer's \<open>init\<close>, \<open>clear\<close> and \<open>resize\<close> are not
  defined in api.go. \<open>init(w,h)\<close> allocates a grid of zero-valued cells, \<open>clear()\<close>
  resets every cell to the clear attributes with a blank character, \<open>resize(w,h)\<close>
  reallocates and clears, without migrating content.
\<close>

definition cellbuf_init :: "int \<Rightarrow> int \<Rightarrow> cellbuf" where
  "cellbuf_init w h = \<lparr>width = w, height = h, cells = replicate (nat (w * h)) \<lparr>Ch = 0, Fg = 0, Bg = 0\<rparr>\<rparr>"

definition cellbuf_clear :: "Attribute \<Rightarrow> Attribute \<Rightarrow> cellbuf \<Rightarrow> cellbuf" where
  "cellbuf_clear fg bg b = b\<lparr>cells := map (\<lambda>c. \<lparr>Ch = 32, Fg = fg, Bg = bg\<rparr>) (cells b)\<rparr>"

definition cellbuf_resize :: "Attribute \<Rightarrow> Attribute \<Rightarrow> int \<Rightarrow> int \<Rightarrow> cellbuf" where
  "cellbuf_resize fg bg w h = cellbuf_clear fg bg (cellbuf_init w h)"

text \<open>
  Modelled from the spec: \<open>update_size\<close> is not defined in api.go. It queries the
  geometry of the terminal and resizes both grids to it.
\<close>

definition update_size :: "session \<Rightarrow> session" where
  "update_size s =
     (let w = int (fst (term_size s)); h = int (snd (term_size s)) in
      s\<lparr>termw := w, termh := h,
        back_buffer := cellbuf_resize (foreground s) (background s) w h,
        front_buffer := cellbuf_resize (foreground s) (background s) w h\<rparr>)"

text \<open>
  Modelled from the spec: \<open>send_attr\<close> is not defined in api.go. When the attribute pair
  differs from the last emitted pair, it emits an attribute-change sequence.
\<close>

definition send_attr :: "session \<Rightarrow> Attribute \<Rightarrow> Attribute \<Rightarrow> session" where
  "send_attr s fg bg =
     (if fg \<noteq> lastfg s \<or> bg \<noteq> lastbg s
      then s\<lparr>outbuf := outbuf s @ [AttrChange fg bg], lastfg := fg, lastbg := bg\<rparr>
      else s)"

text \<open>
  Modelled from the spec: \<open>send_char\<close> is not defined in api.go. It emits a cursor move
  to the position of the cell, with 1-based row and column, and then the character.
\<close>

definition send_char :: "session \<Rightarrow> int \<Rightarrow> int \<Rightarrow> 32 word \<Rightarrow> session" where
  "send_char s x y ch =
     s\<lparr>outbuf := outbuf s @ [Fprintf t_move_cursor [int64 (y + 1), int64 (x + 1)], CharBytes ch],
       lastx := x, lasty := y\<rparr>"

text \<open>
  Modelled from the spec: \<open>flush\<close> is not defined in api.go. It writes all emitted output
  to the terminal as a single write and empties the output buffer.
\<close>

definition flush :: "session \<Rightarrow> session" where
  "flush s = s\<lparr>out := out s @ [outbuf s], outbuf := []\<rparr>"

section \<open>Cursor\<close>

definition SetCursor :: "(int \<Rightarrow> int \<Rightarrow> bool) \<Rightarrow> session \<Rightarrow> int \<Rightarrow> int \<Rightarrow> session" where
  "SetCursor is_cursor_hidden s x y =
     (let s1 = (if is_cursor_hidden (cursor_x s) (cursor_y s) \<and> \<not> is_cursor_hidden x y
                then s\<lparr>outbuf := outbuf s @ [WriteString t_show_cursor]\<rparr> else s);
          s2 = (if \<not> is_cursor_hidden (cursor_x s1) (cursor_y s1) \<and> is_cursor_hidden x y
                then s1\<lparr>outbuf := outbuf s1 @ [WriteString t_hide_cursor]\<rparr> else s1);
          s3 = s2\<lparr>cursor_x := x, cursor_y := y\<rparr>
      in if \<not> is_cursor_hidden (cursor_x s3) (cursor_y s3)
         then s3\<lparr>outbuf := outbuf s3 @
                [Fprintf t_move_cursor [int64 (cursor_y s3 + 1), int64 (cursor_y s3 + 1)]]\<rparr>
         else s3)"

definition HideCursor :: "(int \<Rightarrow> int \<Rightarrow> bool) \<Rightarrow> session \<Rightarrow> session" where
  "HideCursor is_cursor_hidden s = SetCursor is_cursor_hidden s cursor_hidden cursor_hidden"

definition SetClearAttributes :: "session \<Rightarrow> Attribute \<Rightarrow> Attribute \<Rightarrow> session" where
  "SetClearAttributes s fg bg = s\<lparr>foreground := fg, background := bg\<rparr>"

definition Size :: "session \<Rightarrow> int \<times> int" where
  "Size s = (termw s, termh s)"

section \<open>Present and Clear\<close>

text \<open>
  The non-blocking \<open>select\<close> on the draw-side resize channel: a pending notification is
  taken from the channel and \<open>update_size\<close> runs; with none pending the \<open>default\<close> branch
  does nothing.
\<close>

definition select_sigwinch_draw :: "session \<Rightarrow> session" where
  "select_sigwinch_draw s =
     (if sigwinch_draw s then update_size (s\<lparr>sigwinch_draw := False\<rparr>) else s)"

text \<open>
  The body of the inner loop of Present. Indexing a slice outside its length panics.
\<close>

definition present_cell :: "session \<Rightarrow> int \<Rightarrow> int \<Rightarrow> int \<Rightarrow> (panic \<times> session) + session" where
  "present_cell s line_offset x y =
     (let cell_offset = int64 (line_offset + x) in
      if \<not> (0 \<le> cell_offset \<and> cell_offset < int (length (cells (back_buffer s))))
      then Inl (IndexOutOfRange, s)
      else if \<not> (0 \<le> cell_offset \<and> cell_offset < int (length (cells (front_buffer s))))
      then Inl (IndexOutOfRange, s)
      else
        let back = cells (back_buffer s) ! nat cell_offset;
            front = cells (front_buffer s) ! nat cell_offset in
        if back = front then Inr s
        else
          let s1 = send_attr s (Fg back) (Bg back);
              s2 = send_char s1 x y (Ch back)
          in Inr (s2\<lparr>front_buffer := (front_buffer s2)\<lparr>cells :=
                    (cells (front_buffer s2))[nat cell_offset := back]\<rparr>\<rparr>))"

lemma present_cell_dims:
  "present_cell s lo x y = Inr s' \<Longrightarrow>
     width (front_buffer s') = width (front_buffer s) \<and>
     height (front_buffer s') = height (front_buffer s)"
  by (auto simp: present_cell_def send_attr_def send_char_def Let_def split: if_splits)

text \<open>
  The inner loop, over the columns of one row. The bound is read from the front buffer
  at every iteration, as in the source; \<open>x < width\<close> when \<open>x++\<close> runs, so it cannot wrap.
\<close>

function present_row :: "session \<Rightarrow> int \<Rightarrow> int \<Rightarrow> int \<Rightarrow> (panic \<times> session) + session" where
  "present_row s line_offset y x =
     (if x < width (front_buffer s) then
        (case present_cell s line_offset x y of
           Inl e \<Rightarrow> Inl e
         | Inr s' \<Rightarrow> present_row s' line_offset y (x + 1))
      else Inr s)"
  by pat_completeness auto
termination
  by (relation "measure (\<lambda>(s, line_offset, y, x). nat (width (front_buffer s) - x))")
    (auto dest: present_cell_dims)

declare present_row.simps [simp del]

lemma present_row_dims:
  "present_row s lo y x = Inr s' \<Longrightarrow>
     width (front_buffer s') = width (front_buffer s) \<and>
     height (front_buffer s') = height (front_buffer s)"
proof (induction s lo y x rule: present_row.induct)
  case (1 s lo y x)
  show ?case
  proof (cases "x < width (front_buffer s)")
    case False
    with "1.prems" show ?thesis by (simp add: present_row.simps [of s lo y x])
  next
    case True
    with "1.prems" obtain s1 where c: "present_cell s lo x y = Inr s1"
      and r: "present_row s1 lo y (x + 1) = Inr s'"
      by (auto simp: present_row.simps [of s lo y x] split: sum.splits)
    from "1.IH" [OF True c r] present_cell_dims [OF c] show ?thesis by simp
  qed
qed

text \<open>The outer loop, over the rows.\<close>

function present_rows :: "session \<Rightarrow> int \<Rightarrow> (panic \<times> session) + session" where
  "present_rows s y =
     (if y < height (front_buffer s) then
        (let line_offset = int64 (y * width (front_buffer s)) in
         case present_row s line_offset y 0 of
           Inl e \<Rightarrow> Inl e
         | Inr s' \<Rightarrow> present_rows s' (y + 1))
      else Inr s)"
  by pat_completeness auto
termination
  by (relation "measure (\<lambda>(s, y). nat (height (front_buffer s) - y))")
    (auto dest!: present_row_dims)

declare present_rows.simps [simp del]

definition Present :: "(int \<Rightarrow> int \<Rightarrow> bool) \<Rightarrow> session \<Rightarrow> (panic \<times> session) + session" where
  "Present is_cursor_hidden s =
     (let s1 = s\<lparr>lastx := coord_invalid, lasty := coord_invalid\<rparr>;
          s2 = select_sigwinch_draw s1
      in case present_rows s2 0 of
           Inl e \<Rightarrow> Inl e
         | Inr s3 \<Rightarrow>
             let s4 = (if \<not> is_cursor_hidden (cursor_x s3) (cursor_y s3)
                       then s3\<lparr>outbuf := outbuf s3 @
                              [Fprintf t_move_cursor [int64 (cursor_y s3 + 1), int64 (cursor_x s3 + 1)]]\<rparr>
                       else s3)
             in Inr (flush s4))"

definition Clear :: "session \<Rightarrow> session" where
  "Clear s =
     (let s1 = select_sigwinch_draw s
      in s1\<lparr>back_buffer := cellbuf_clear (foreground s1) (background s1) (back_buffer s1)\<rparr>)"

section \<open>Well-formed grids and a small session to run the operations on\<close>

text \<open>
  The data model's invariant of a grid: the cells are stored row by row and there are
  width times height of them. The bounds are those of the machine integers that hold the
  width, the height and the length of the slice.
\<close>

definition grid_ok :: "cellbuf \<Rightarrow> bool" where
  "grid_ok b = (0 \<le> width b \<and> width b < 9223372036854775808
     \<and> 0 \<le> height b \<and> height b < 9223372036854775808
     \<and> width b * height b < 9223372036854775808
     \<and> length (cells b) = nat (width b * height b))"

definition blank :: Cell where
  "blank = \<lparr>Ch = 32, Fg = 8, Bg = 8\<rparr>"

definition mark :: Cell where
  "mark = \<lparr>Ch = 88, Fg = 7, Bg = 0\<rparr>"

definition demo_grid :: cellbuf where
  "demo_grid = \<lparr>width = 3, height = 2, cells = [blank, blank, blank, blank, blank, blank]\<rparr>"

definition demo :: session where
  "demo = \<lparr>back_buffer = demo_grid, front_buffer = demo_grid, termw = 3, termh = 2,
     input_mode = 1, cursor_x = - 1, cursor_y = - 1, lastx = - 2, lasty = - 2,
     lastfg = 65535, lastbg = 65535, foreground = 8, background = 8,
     outbuf = [], out = [], sigwinch_draw = False, term_size = (3, 2)\<rparr>"

text \<open>What an operation appended to the output buffer.\<close>

definition emitted :: "session \<Rightarrow> session \<Rightarrow> out_item list" where
  "emitted s s' = drop (length (outbuf s)) (outbuf s')"

definition glyph :: "32 word \<Rightarrow> Cell" where
  "glyph c = \<lparr>Ch = c, Fg = 7, Bg = 0\<rparr>"

section \<open>What Blit is to compute\<close>

text \<open>
  The rectangle of width \<open>w\<close> and height \<open>h\<close> placed at column \<open>x\<close>, row \<open>y\<close> of a
  row-major grid of width \<open>W\<close>: the cell at row \<open>r\<close>, column \<open>c\<close> inside the rectangle
  receives the source cell of row \<open>r - y\<close>, column \<open>c - x\<close>, and every other cell keeps its
  value.
\<close>

definition blit_spec :: "Cell list \<Rightarrow> int \<Rightarrow> int \<Rightarrow> int \<Rightarrow> int \<Rightarrow> int \<Rightarrow> Cell list \<Rightarrow> Cell list" where
  "blit_spec dst W x y w h src =
     map (\<lambda>k. let r = int k div W; c = int k mod W in
               if y \<le> r \<and> r < y + h \<and> x \<le> c \<and> c < x + w
               then src ! nat ((r - y) * w + (c - x)) else dst ! k)
         [0..<length dst]"

section \<open>Sessions on which Present is studied\<close>

text \<open>
  The invariant of the session: both grids are well formed and have the same dimensions,
  and the geometry that the terminal reports fits machine integers.
\<close>

definition session_ok :: "session \<Rightarrow> bool" where
  "session_ok s = (grid_ok (back_buffer s) \<and> grid_ok (front_buffer s)
     \<and> width (front_buffer s) = width (back_buffer s)
     \<and> height (front_buffer s) = height (back_buffer s)
     \<and> int (fst (term_size s)) < 9223372036854775808
     \<and> int (snd (term_size s)) < 9223372036854775808
     \<and> int (fst (term_size s)) * int (snd (term_size s)) < 9223372036854775808)"

text \<open>What Present emits after the scan: one move to the cursor, unless it is hidden.\<close>

definition final_cursor_move :: "(int \<Rightarrow> int \<Rightarrow> bool) \<Rightarrow> session \<Rightarrow> out_item list" where
  "final_cursor_move is_cursor_hidden s =
     (if is_cursor_hidden (cursor_x s) (cursor_y s) then []
      else [Fprintf t_move_cursor [int64 (cursor_y s + 1), int64 (cursor_x s + 1)]])"

text \<open>
  The part of the session that the scan of Present leaves alone: everything but the
  cells of the front grid, the output buffer and the caches of the last emitted position
  and attributes.
\<close>

definition scan_frame :: "session \<Rightarrow> session" where
  "scan_frame s = s\<lparr>front_buffer := (front_buffer s)\<lparr>cells := []\<rparr>,
     outbuf := [], lastx := 0, lasty := 0, lastfg := 0, lastbg := 0\<rparr>"

text \<open>
  The demo session after ChangeCell(1,1,'X',White,Black), the session that Present makes
  of it, the demo session with a visible cursor, and the changed session with a resize
  notification pending for a terminal of two columns and one row.
\<close>

definition demo_changed :: session where
  "demo_changed = demo\<lparr>back_buffer := demo_grid\<lparr>cells := [blank, blank, blank, blank, mark, blank]\<rparr>\<rparr>"

definition demo_presented :: session where
  "demo_presented = demo_changed\<lparr>
     front_buffer := demo_grid\<lparr>cells := [blank, blank, blank, blank, mark, blank]\<rparr>,
     lastx := 1, lasty := 1, lastfg := 7, lastbg := 0,
     out := [[AttrChange 7 0, Fprintf t_move_cursor [2, 2], CharBytes 88]]\<rparr>"

definition demo_visible :: session where
  "demo_visible = demo\<lparr>cursor_x := 1, cursor_y := 0\<rparr>"

definition demo_resized :: session where
  "demo_resized = demo_changed\<lparr>sigwinch_draw := True, term_size := (2, 1)\<rparr>"

section \<open>Properties\<close>

subsection \<open>Arithmetic that stays inside the machine range\<close>

lemma int64_id: "in_int64 n \<Longrightarrow> int64 n = n"
  unfolding int64_def in_int64_def by (simp add: mod_pos_pos_trivial)

lemma cell_index_bounds:
  fixes x y W H :: int
  assumes "0 \<le> x" "x < W" "0 \<le> y" "y < H"
  shows "0 \<le> y * W + x" "y * W + x < W * H" "0 \<le> y * W" "y * W \<le> W * H"
proof -
  have W: "0 \<le> W" using assms by linarith
  with assms show 1: "0 \<le> y * W" by simp
  with assms show "0 \<le> y * W + x" by simp
  have "(y + 1) * W \<le> H * W" using assms W by (intro mult_right_mono) auto
  then have 2: "y * W + W \<le> W * H" by (simp add: algebra_simps)
  then show "y * W + x < W * H" using assms by linarith
  from 2 W show "y * W \<le> W * H" by linarith
qed

lemma div_eq_iff_int:
  fixes k W a :: int
  assumes "0 < W"
  shows "(k div W = a) = (a * W \<le> k \<and> k < a * W + W)"
proof
  assume e: "k div W = a"
  have "k = (k div W) * W + k mod W" by simp
  with e have "k = a * W + k mod W" by simp
  moreover have "0 \<le> k mod W" "k mod W < W" using assms by simp_all
  ultimately show "a * W \<le> k \<and> k < a * W + W" by linarith
next
  assume b: "a * W \<le> k \<and> k < a * W + W"
  have "k div W = (k - a * W + a * W) div W" by simp
  also have "\<dots> = (k - a * W) div W + a" using assms by (simp only: div_mult_self1 [of W "k - a * W" a] ) 
  also have "(k - a * W) div W = 0" using b assms by (intro div_pos_pos_trivial) linarith+
  finally show "k div W = a" by simp
qed

lemma int64_add_left: "int64 (int64 a + b) = int64 (a + b)"
  unfolding int64_def by (simp add: mod_simps algebra_simps)


lemma sdiv_nonneg: 
  fixes k l :: int
  assumes "0 \<le> k" "0 < l" shows "k sdiv l = k div l"
  using assms by (cases "k = 0") (simp_all add: signed_divide_int_def)


subsection \<open>PutCell and ChangeCell\<close>

lemma PutCell_outside:
  "\<not> (0 \<le> x \<and> x < width (back_buffer s) \<and> 0 \<le> y \<and> y < height (back_buffer s))
   \<Longrightarrow> PutCell s x y c = Inr s"
  by (auto simp: PutCell_def Let_def)

lemma PutCell_inside:
  assumes ok: "grid_ok (back_buffer s)"
    and x: "0 \<le> x" "x < width (back_buffer s)" and y: "0 \<le> y" "y < height (back_buffer s)"
  shows "PutCell s x y c =
      Inr (s\<lparr>back_buffer := (back_buffer s)\<lparr>cells :=
         (cells (back_buffer s))[nat (y * width (back_buffer s) + x) := c]\<rparr>\<rparr>)"
    and "nat (y * width (back_buffer s) + x) < length (cells (back_buffer s))"
proof -
  let ?W = "width (back_buffer s)" and ?H = "height (back_buffer s)"
  note b = cell_index_bounds [OF x y]
  from ok have lim: "?W * ?H < 9223372036854775808"
    and len: "int (length (cells (back_buffer s))) = ?W * ?H"
    by (auto simp: grid_ok_def)
  have "in_int64 (y * ?W)" using b lim unfolding in_int64_def by linarith
  then have 1: "int64 (y * ?W) = y * ?W" by (rule int64_id)
  have "in_int64 (y * ?W + x)" using b lim unfolding in_int64_def by linarith
  then have 2: "int64 (y * ?W + x) = y * ?W + x" by (rule int64_id)
  have 3: "y * ?W + x < int (length (cells (back_buffer s)))" using b len by linarith
  then show "nat (y * ?W + x) < length (cells (back_buffer s))" using b by linarith
  show "PutCell s x y c =
      Inr (s\<lparr>back_buffer := (back_buffer s)\<lparr>cells :=
         (cells (back_buffer s))[nat (y * ?W + x) := c]\<rparr>\<rparr>)"
    unfolding PutCell_def Let_def 1 2 using x y b(1) 3 by simp
qed

text \<open>
  C2. PutCell(x,y,c) stores c in the back grid at the row-major index y*width+x exactly
  when 0 <= x < width and 0 <= y < height: in that case, on a well-formed back grid, the
  index is a position of the cell array, the cell there becomes c and nothing else in the
  session changes; for every other pair of coordinates, negative ones included, PutCell
  returns the session unchanged and does not panic. ChangeCell(x,y,ch,fg,bg) is
  PutCell(x,y,Cell{ch,fg,bg}).
\<close>

theorem PutCell_writes_iff_in_range:
  "(grid_ok (back_buffer s) \<and> 0 \<le> x \<and> x < width (back_buffer s)
      \<and> 0 \<le> y \<and> y < height (back_buffer s) \<longrightarrow>
      nat (y * width (back_buffer s) + x) < length (cells (back_buffer s)) \<and>
      PutCell s x y c =
        Inr (s\<lparr>back_buffer := (back_buffer s)\<lparr>cells :=
          (cells (back_buffer s))[nat (y * width (back_buffer s) + x) := c]\<rparr>\<rparr>))
   \<and> (\<not> (0 \<le> x \<and> x < width (back_buffer s) \<and> 0 \<le> y \<and> y < height (back_buffer s)) \<longrightarrow>
      PutCell s x y c = Inr s)
   \<and> ChangeCell s x y ch fg bg = PutCell s x y \<lparr>Ch = ch, Fg = fg, Bg = bg\<rparr>"
proof (intro conjI impI)
  assume a: "grid_ok (back_buffer s) \<and> 0 \<le> x \<and> x < width (back_buffer s)
      \<and> 0 \<le> y \<and> y < height (back_buffer s)"
  then show "nat (y * width (back_buffer s) + x) < length (cells (back_buffer s))"
    by (intro PutCell_inside(2)) simp_all
  from a show "PutCell s x y c =
        Inr (s\<lparr>back_buffer := (back_buffer s)\<lparr>cells :=
          (cells (back_buffer s))[nat (y * width (back_buffer s) + x) := c]\<rparr>\<rparr>)"
    by (intro PutCell_inside(1)) simp_all
next
  assume "\<not> (0 \<le> x \<and> x < width (back_buffer s) \<and> 0 \<le> y \<and> y < height (back_buffer s))"
  then show "PutCell s x y c = Inr s" by (rule PutCell_outside)
next
  show "ChangeCell s x y ch fg bg = PutCell s x y \<lparr>Ch = ch, Fg = fg, Bg = bg\<rparr>"
    by (simp add: ChangeCell_def)
qed

theorem PutCell_writes_iff_in_range_witness:
  "grid_ok (back_buffer demo)
   \<and> PutCell demo 1 1 mark =
       Inr (demo\<lparr>back_buffer := demo_grid\<lparr>cells := [blank, blank, blank, blank, mark, blank]\<rparr>\<rparr>)
   \<and> PutCell demo (- 1) 0 mark = Inr demo
   \<and> PutCell demo 3 0 mark = Inr demo
   \<and> ChangeCell demo 1 1 88 7 0 = PutCell demo 1 1 mark"
  using PutCell_writes_iff_in_range [of demo 1 1 mark 88 7 0]
    PutCell_writes_iff_in_range [of demo "- 1" 0 mark 88 7 0]
    PutCell_writes_iff_in_range [of demo 3 0 mark 88 7 0]
  by (simp add: demo_def demo_grid_def grid_ok_def mark_def)

subsection \<open>Blit\<close>




text \<open>The slices of the loop and the copy between them.\<close>

lemma nth_append3:
  "length xs = a \<Longrightarrow> length ys = n \<Longrightarrow>
   (xs @ ys @ zs) ! k =
     (if k < a then xs ! k else if k < a + n then ys ! (k - a) else zs ! (k - a - n))"
  by (auto simp: nth_append)

lemma copy_slice_eq:
  "copy_slice dst dlo (dlo + w) src slo (slo + w) =
     take (nat dlo) dst @ take (nat w) (drop (nat slo) src) @ drop (nat dlo + nat w) dst"
  by (simp add: copy_slice_def Let_def)

lemma copy_slice_length:
  assumes "0 \<le> dlo" "0 \<le> w" "dlo + w \<le> int (length dst)" "0 \<le> slo" "slo + w \<le> int (length src)"
  shows "length (copy_slice dst dlo (dlo + w) src slo (slo + w)) = length dst"
proof -
  have 1: "nat dlo + nat w \<le> length dst" using assms by linarith
  have 2: "nat slo + nat w \<le> length src" using assms by linarith
  have la: "length (take (nat dlo) dst) = nat dlo" using 1 by simp
  have ln: "length (take (nat w) (drop (nat slo) src)) = nat w" using 2 by simp
  have lz: "length (drop (nat dlo + nat w) dst) = length dst - (nat dlo + nat w)" by simp
  have "length (copy_slice dst dlo (dlo + w) src slo (slo + w)) =
        nat dlo + (nat w + (length dst - (nat dlo + nat w)))"
    unfolding copy_slice_eq length_append la ln lz ..
  with 1 show ?thesis by linarith
qed

lemma copy_slice_nth:
  assumes "0 \<le> dlo" "0 \<le> w" "dlo + w \<le> int (length dst)" "0 \<le> slo" "slo + w \<le> int (length src)"
    and "k < length dst"
  shows "copy_slice dst dlo (dlo + w) src slo (slo + w) ! k =
          (if dlo \<le> int k \<and> int k < dlo + w then src ! nat (slo + (int k - dlo)) else dst ! k)"
proof -
  let ?a = "nat dlo" and ?n = "nat w" and ?b = "nat slo"
  have d1: "?a + ?n \<le> length dst" using assms by linarith
  have d2: "?b + ?n \<le> length src" using assms by linarith
  have la: "length (take ?a dst) = ?a" using d1 by simp
  have ln: "length (take ?n (drop ?b src)) = ?n" using d2 by simp
  note c = nth_append3 [OF la ln, of "drop (?a + ?n) dst" k, folded copy_slice_eq]
  consider "k < ?a" | "?a \<le> k" "k < ?a + ?n" | "?a + ?n \<le> k" by linarith
  then show ?thesis
  proof cases
    case 1
    then have r: "\<not> dlo \<le> int k" using assms by linarith
    from 1 have "copy_slice dst dlo (dlo + w) src slo (slo + w) ! k = dst ! k"
      unfolding c by simp
    with r show ?thesis by simp
  next
    case 2
    then have r: "dlo \<le> int k" "int k < dlo + w" using assms by linarith+
    have e: "?b + (k - ?a) = nat (slo + (int k - dlo))" using 2 assms r by linarith
    from 2 have "copy_slice dst dlo (dlo + w) src slo (slo + w) ! k = take ?n (drop ?b src) ! (k - ?a)"
      unfolding c by simp
    also have "\<dots> = src ! (?b + (k - ?a))" using 2 d2 by simp
    finally show ?thesis using r e by simp
  next
    case 3
    then have r: "\<not> int k < dlo + w" using assms by linarith
    from 3 have "copy_slice dst dlo (dlo + w) src slo (slo + w) ! k = drop (?a + ?n) dst ! (k - ?a - ?n)"
      unfolding c by simp
    also have "\<dots> = dst ! k" using 3 d1 assms(6) by simp
    finally show ?thesis using r by simp
  qed
qed

lemma blit_spec_length: "length (blit_spec dst W x y w h src) = length dst"
  by (simp add: blit_spec_def)

lemma blit_spec_no_rows: "blit_spec dst W x y w 0 src = dst"
proof -
  have "blit_spec dst W x y w 0 src = map (\<lambda>k. dst ! k) [0..<length dst]"
    unfolding blit_spec_def Let_def by (intro map_cong) auto
  then show ?thesis by (simp add: map_nth)
qed

text \<open>The cells of row a between columns x and x + w are the indices from a*W + x on.\<close>

lemma in_row_segment:
  fixes k W a x w :: int
  assumes "0 < W" "0 \<le> x" "x + w \<le> W"
  shows "(a * W + x \<le> k \<and> k < a * W + x + w) = (k div W = a \<and> x \<le> k mod W \<and> k mod W < x + w)"
proof
  assume h: "a * W + x \<le> k \<and> k < a * W + x + w"
  with assms have "a * W \<le> k \<and> k < a * W + W" by linarith
  then have d: "k div W = a" using div_eq_iff_int [OF assms(1)] by simp
  have "k = (k div W) * W + k mod W" by simp
  with d have "k mod W = k - a * W" by simp
  with h d show "k div W = a \<and> x \<le> k mod W \<and> k mod W < x + w" by simp
next
  assume h: "k div W = a \<and> x \<le> k mod W \<and> k mod W < x + w"
  have "k = (k div W) * W + k mod W" by simp
  with h have "k = a * W + k mod W" by simp
  with h show "a * W + x \<le> k \<and> k < a * W + x + w" by linarith
qed

lemma blit_spec_nth:
  "k < length dst \<Longrightarrow> blit_spec dst W x y w h src ! k =
     (if y \<le> int k div W \<and> int k div W < y + h \<and> x \<le> int k mod W \<and> int k mod W < x + w
      then src ! nat ((int k div W - y) * w + (int k mod W - x)) else dst ! k)"
  by (simp add: blit_spec_def Let_def)

text \<open>Copying row i and then the rows after it is copying the rows from i on.\<close>

lemma blit_spec_step:
  fixes W H x y w h i :: int
  assumes W: "0 < W" and x: "0 \<le> x" "x + w \<le> W" and w: "0 < w"
    and i: "0 \<le> i" "i < h" and y: "0 \<le> y" "y + h \<le> H"
    and len: "int (length dst) = W * H" and src: "h * w \<le> int (length src)"
  shows "blit_spec (copy_slice dst ((y + i) * W + x) ((y + i) * W + x + w) src (i * w) (i * w + w))
            W x (y + (i + 1)) w (h - (i + 1)) (drop (nat ((i + 1) * w)) src)
         = blit_spec dst W x (y + i) w (h - i) (drop (nat (i * w)) src)"
proof (rule nth_equalityI)
  let ?d = "(y + i) * W + x" and ?s = "i * w"
  let ?c = "copy_slice dst ?d (?d + w) src ?s (?s + w)"
  have yi: "0 \<le> (y + i) * W" using y i W by simp
  have d0: "0 \<le> ?d" using yi x by linarith
  have "(y + i + 1) * W \<le> H * W" using y i W by (intro mult_right_mono) linarith+
  then have d1: "?d + w \<le> int (length dst)" using x len by (simp add: algebra_simps)
  have s0: "0 \<le> ?s" using i w by simp
  have "(i + 1) * w \<le> h * w" using i w by (intro mult_right_mono) linarith+
  then have s1: "?s + w \<le> int (length src)" using src by (simp add: algebra_simps)
  have s1': "(i + 1) * w \<le> int (length src)" using s1 by (simp add: algebra_simps)
  have w0: "0 \<le> w" using w by simp
  note cl = copy_slice_length [OF d0 w0 d1 s0 s1]
  show "length (blit_spec ?c W x (y + (i + 1)) w (h - (i + 1)) (drop (nat ((i + 1) * w)) src))
      = length (blit_spec dst W x (y + i) w (h - i) (drop (nat (i * w)) src))"
    by (simp only: blit_spec_length cl)
  fix k
  assume "k < length (blit_spec ?c W x (y + (i + 1)) w (h - (i + 1)) (drop (nat ((i + 1) * w)) src))"
  then have k: "k < length dst" by (simp only: blit_spec_length cl)
  then have kc: "k < length ?c" by (simp only: cl)
  let ?r = "int k div W" and ?m = "int k mod W"
  note seg = in_row_segment [OF W x, of "y + i" "int k"]
  note cn = copy_slice_nth [OF d0 w0 d1 s0 s1 k]
  have m: "0 \<le> ?m" "?m < W" using W by simp_all
  consider (row) "?r = y + i" "x \<le> ?m" "?m < x + w"
    | (later) "y + i + 1 \<le> ?r" "?r < y + h" "x \<le> ?m" "?m < x + w"
    | (out) "\<not> (y + i \<le> ?r \<and> ?r < y + h \<and> x \<le> ?m \<and> ?m < x + w)"
    by linarith
  then show "blit_spec ?c W x (y + (i + 1)) w (h - (i + 1)) (drop (nat ((i + 1) * w)) src) ! k
      = blit_spec dst W x (y + i) w (h - i) (drop (nat (i * w)) src) ! k"
  proof cases
    case row
    then have ind: "?d \<le> int k \<and> int k < ?d + w" using seg by simp
    have ke: "int k = (y + i) * W + ?m" using row(1) by (metis mult_div_mod_eq mult.commute)
    have l: "blit_spec ?c W x (y + (i + 1)) w (h - (i + 1)) (drop (nat ((i + 1) * w)) src) ! k = ?c ! k"
      using row by (simp add: blit_spec_nth [OF kc])
    also have "\<dots> = src ! nat (?s + (int k - ?d))" using ind cn by simp
    also have "?s + (int k - ?d) = ?s + (?m - x)" using ke by linarith
    finally have l': "blit_spec ?c W x (y + (i + 1)) w (h - (i + 1)) (drop (nat ((i + 1) * w)) src) ! k
        = src ! nat (?s + (?m - x))" .
    have "blit_spec dst W x (y + i) w (h - i) (drop (nat (i * w)) src) ! k
        = drop (nat ?s) src ! nat (?m - x)"
      using row i by (simp add: blit_spec_nth [OF k])
    also have "\<dots> = src ! (nat ?s + nat (?m - x))" using s0 s1 w0 by (intro nth_drop) linarith
    also have "nat ?s + nat (?m - x) = nat (?s + (?m - x))" using s0 row by linarith
    finally show ?thesis using l' by simp
  next
    case later
    then have nind: "\<not> (?d \<le> int k \<and> int k < ?d + w)" using seg by simp
    let ?j = "(?r - (y + (i + 1))) * w + (?m - x)"
    have j0: "0 \<le> (?r - (y + (i + 1))) * w" using later w0 by simp
    have "blit_spec ?c W x (y + (i + 1)) w (h - (i + 1)) (drop (nat ((i + 1) * w)) src) ! k
        = drop (nat ((i + 1) * w)) src ! nat ?j"
      using later by (simp add: blit_spec_nth [OF kc])
    also have "\<dots> = src ! (nat ((i + 1) * w) + nat ?j)" using s1' by (intro nth_drop) linarith
    also have "nat ((i + 1) * w) + nat ?j = nat ((?r - y) * w + (?m - x))"
      using j0 later s0 w0 by (simp add: algebra_simps nat_add_distrib)
    finally have l: "blit_spec ?c W x (y + (i + 1)) w (h - (i + 1)) (drop (nat ((i + 1) * w)) src) ! k
        = src ! nat ((?r - y) * w + (?m - x))" .
    let ?j' = "(?r - (y + i)) * w + (?m - x)"
    have j0': "0 \<le> (?r - (y + i)) * w" using later w0 by simp
    have "blit_spec dst W x (y + i) w (h - i) (drop (nat (i * w)) src) ! k
        = drop (nat ?s) src ! nat ?j'"
      using later by (simp add: blit_spec_nth [OF k])
    also have "\<dots> = src ! (nat ?s + nat ?j')" using s0 s1 w0 by (intro nth_drop) linarith
    also have "nat ?s + nat ?j' = nat ((?r - y) * w + (?m - x))"
      using j0' later s0 w0 by (simp add: algebra_simps nat_add_distrib)
    finally show ?thesis using l by simp
  next
    case out
    then have nind: "\<not> (?d \<le> int k \<and> int k < ?d + w)" using seg i y by auto
    from out have o2: "\<not> (y + (i + 1) \<le> ?r \<and> ?r < y + (i + 1) + (h - (i + 1)) \<and> x \<le> ?m \<and> ?m < x + w)"
      by auto
    have "blit_spec ?c W x (y + (i + 1)) w (h - (i + 1)) (drop (nat ((i + 1) * w)) src) ! k = ?c ! k"
      using o2 by (simp only: blit_spec_nth [OF kc] if_False)
    also have "\<dots> = dst ! k" by (simp only: cn nind if_False)
    finally have l: "blit_spec ?c W x (y + (i + 1)) w (h - (i + 1)) (drop (nat ((i + 1) * w)) src) ! k = dst ! k" .
    from out have o1: "\<not> (y + i \<le> ?r \<and> ?r < y + i + (h - i) \<and> x \<le> ?m \<and> ?m < x + w)" by auto
    have "blit_spec dst W x (y + i) w (h - i) (drop (nat (i * w)) src) ! k = dst ! k"
      using o1 by (simp only: blit_spec_nth [OF k] if_False)
    with l show ?thesis by simp
  qed
qed

lemma blit_loop_rows:
  fixes W H x y w h :: int
  assumes lim: "W * H < 9223372036854775808"
    and x: "0 \<le> x" "x + w \<le> W" and w: "0 < w"
    and y: "0 \<le> y" "y + h \<le> H"
    and src: "h * w \<le> int (length src)"
  shows "0 \<le> i \<Longrightarrow> i \<le> h \<Longrightarrow> int (length dst) = W * H \<Longrightarrow>
     blit_loop i h w W src (int64 ((y + i) * W + x)) (int64 (i * w)) dst =
       Inr (blit_spec dst W x (y + i) w (h - i) (drop (nat (i * w)) src))"
proof (induction "nat (h - i)" arbitrary: i dst)
  case 0
  then have "i = h" by simp
  then show ?case
    by (simp add: blit_loop.simps [of h h] blit_spec_no_rows)
next
  case (Suc n)
  from Suc.hyps(2) have i: "0 \<le> i" "i < h" using Suc.prems by linarith+
  have W: "0 < W" using x w by linarith
  let ?d = "(y + i) * W + x" and ?s = "i * w"
  have yi: "0 \<le> (y + i) * W" using y i W by simp
  have d0: "0 \<le> ?d" using yi x by linarith
  have "(y + i + 1) * W \<le> H * W" using y i W by (intro mult_right_mono) linarith+
  then have d1: "?d + w \<le> W * H" using x by (simp add: algebra_simps)
  have s0: "0 \<le> ?s" using i w by simp
  have "(i + 1) * w \<le> h * w" using i w by (intro mult_right_mono) linarith+
  then have s1: "?s + w \<le> h * w" by (simp add: algebra_simps)
  have "0 \<le> h" "h \<le> H" "w \<le> W" using i y x by linarith+
  then have "h * w \<le> H * W" using w by (intro mult_mono) linarith+
  then have hw: "h * w < 9223372036854775808" using lim by (simp add: mult.commute)
  have e1: "int64 ?d = ?d" using d0 d1 w lim by (intro int64_id) (simp add: in_int64_def)
  have e2: "int64 (?d + w) = ?d + w" using d0 d1 w lim by (intro int64_id) (simp add: in_int64_def)
  have e3: "int64 ?s = ?s" using s0 s1 w hw by (intro int64_id) (simp add: in_int64_def)
  have e4: "int64 (?s + w) = ?s + w" using s0 s1 w hw by (intro int64_id) (simp add: in_int64_def)
  have ok1: "slice_ok dst ?d (?d + w)" using d0 d1 w Suc.prems(3) by (simp add: slice_ok_def)
  have ok2: "slice_ok src ?s (?s + w)" using s0 s1 w src by (simp add: slice_ok_def)
  let ?c = "copy_slice dst ?d (?d + w) src ?s (?s + w)"
  have n1: "?d + W = (y + (i + 1)) * W + x" by (simp add: algebra_simps)
  have a1: "int64 (?d + W) = int64 ((y + (i + 1)) * W + x)" by (simp only: n1)
  have n2: "?s + w = (i + 1) * w" by (simp add: algebra_simps)
  have a2: "int64 (?s + w) = int64 ((i + 1) * w)" by (simp only: n2)
  have w0: "0 \<le> w" using w by simp
  have dl: "?d + w \<le> int (length dst)" using d1 Suc.prems(3) by simp
  have sl: "?s + w \<le> int (length src)" using s1 src by linarith
  have cl: "int (length ?c) = W * H"
    using copy_slice_length [OF d0 w0 dl s0 sl] Suc.prems(3) by simp
  have n: "n = nat (h - (i + 1))" using Suc.hyps(2) by linarith
  have ih: "blit_loop (i + 1) h w W src (int64 ((y + (i + 1)) * W + x)) (int64 ((i + 1) * w)) ?c =
       Inr (blit_spec ?c W x (y + (i + 1)) w (h - (i + 1)) (drop (nat ((i + 1) * w)) src))"
    using i by (intro Suc.hyps(1) [OF n _ _ cl]) linarith+
  have "blit_loop i h w W src (int64 ?d) (int64 ?s) dst =
        blit_loop (i + 1) h w W src (int64 (?d + W)) (int64 (?s + w)) ?c"
    using i ok1 ok2 by (subst blit_loop.simps) (simp add: e1 e2 e3 e4)
  also have "\<dots> = blit_loop (i + 1) h w W src (int64 ((y + (i + 1)) * W + x)) (int64 ((i + 1) * w)) ?c"
    by (simp only: a1 a2)
  also have "\<dots> = Inr (blit_spec ?c W x (y + (i + 1)) w (h - (i + 1)) (drop (nat ((i + 1) * w)) src))"
    by (rule ih)
  also have "blit_spec ?c W x (y + (i + 1)) w (h - (i + 1)) (drop (nat ((i + 1) * w)) src)
      = blit_spec dst W x (y + i) w (h - i) (drop (nat (i * w)) src)"
    using blit_spec_step [OF W x w i y Suc.prems(3) src] by (simp add: algebra_simps)
  finally show ?case .
qed

lemma blit_spec_take:
  fixes w h :: int
  assumes "0 < w" "0 \<le> h" "h * w \<le> int (length src)"
  shows "blit_spec dst W x y w h (take (nat (h * w)) src) = blit_spec dst W x y w h src"
  unfolding blit_spec_def Let_def
proof (intro map_cong refl)
  fix k
  let ?r = "int k div W" and ?m = "int k mod W"
  show "(if y \<le> ?r \<and> ?r < y + h \<and> x \<le> ?m \<and> ?m < x + w
         then take (nat (h * w)) src ! nat ((?r - y) * w + (?m - x)) else dst ! k) =
        (if y \<le> ?r \<and> ?r < y + h \<and> x \<le> ?m \<and> ?m < x + w
         then src ! nat ((?r - y) * w + (?m - x)) else dst ! k)"
  proof (cases "y \<le> ?r \<and> ?r < y + h \<and> x \<le> ?m \<and> ?m < x + w")
    case False
    then show ?thesis by (simp only: if_False)
  next
    case True
    then have "(?r - y + 1) * w \<le> h * w" using assms by (intro mult_right_mono) linarith+
    then have "(?r - y) * w + w \<le> h * w" by (simp add: algebra_simps)
    moreover have "0 \<le> (?r - y) * w" using True assms by simp
    ultimately have "nat ((?r - y) * w + (?m - x)) < nat (h * w)" using True by linarith
    then show ?thesis by simp
  qed
qed

lemma Blit_in_bounds:
  assumes ok: "grid_ok (back_buffer s)" and w: "0 < w"
    and x: "0 \<le> x" "x + w \<le> width (back_buffer s)"
    and y: "0 \<le> y" "y + int (length cs) div w \<le> height (back_buffer s)"
    and len: "int (length cs) < 9223372036854775808"
  shows "Blit s x y w cs =
      Inr (s\<lparr>back_buffer := (back_buffer s)\<lparr>cells :=
        blit_spec (cells (back_buffer s)) (width (back_buffer s)) x y w (int (length cs) div w) cs\<rparr>\<rparr>)"
proof -
  let ?W = "width (back_buffer s)" and ?H = "height (back_buffer s)"
  let ?h = "int (length cs) div w"
  from ok have lim: "?W * ?H < 9223372036854775808" and Wl: "?W < 9223372036854775808"
    and Hl: "?H < 9223372036854775808"
    and dl: "int (length (cells (back_buffer s))) = ?W * ?H"
    by (auto simp: grid_ok_def)
  have h0: "0 \<le> ?h" using w by (simp add: pos_imp_zdiv_nonneg_iff)
  have "?h * w \<le> int (length cs)" using w by (metis div_mult_mod_eq le_add_same_cancel1 pos_mod_sign)
  note hw = this
  have "?h * 1 \<le> ?h * w" using h0 w by (intro mult_left_mono) linarith+
  with hw have "?h \<le> int (length cs)" by simp
  then have e_h: "int64 (int (length cs) sdiv w) = ?h"
    using h0 len w by (simp add: sdiv_nonneg int64_id in_int64_def)
  have e_x: "int64 (x + w) = x + w" using x w Wl by (intro int64_id) (simp add: in_int64_def)
  have e_y: "int64 (y + ?h) = y + ?h" using y h0 Hl by (intro int64_id) (simp add: in_int64_def)
  have g1: "\<not> (int64 (x + w) > ?W \<or> x < 0)" using x e_x by simp
  have g2: "\<not> (int64 (y + ?h) > ?H \<or> y < 0)" using y e_y by simp
  have z: "int64 0 = 0" by (simp add: int64_def)
  have loop': "blit_loop 0 ?h w ?W cs (int64 (int64 (y * ?W) + x)) 0 (cells (back_buffer s))
      = Inr (blit_spec (cells (back_buffer s)) ?W x y w ?h cs)"
    using blit_loop_rows [OF lim x w y hw _ _ dl, of 0] h0 by (simp add: int64_add_left z)
  have w': "w \<noteq> 0" using w by simp
  show ?thesis
    unfolding Blit_def Let_def e_h
    by (simp only: w' g1 g2 if_False loop' sum.case)
qed

text \<open>
  C10. For every in-bounds Blit(x,y,w,cells) with w > 0 on a well-formed back grid, the
  call returns normally and the back grid becomes the old one with exactly
  h = floor(len(cells)/w) rows of w cells copied into the rectangle at (x,y): the cell of
  row r, column c of the rectangle is cells[(r-y)*w + (c-x)] and every other cell is as
  before. The len(cells) mod w cells after the first h*w are not written anywhere: the
  call gives the same result as with these cells removed. This holds whether or not
  len(cells) is a multiple of w.
\<close>

theorem Blit_copies_whole_rows:
  assumes ok: "grid_ok (back_buffer s)" and w: "0 < w"
    and x: "0 \<le> x" "x + w \<le> width (back_buffer s)"
    and y: "0 \<le> y" "y + int (length cs) div w \<le> height (back_buffer s)"
    and len: "int (length cs) < 9223372036854775808"
  shows "Blit s x y w cs =
      Inr (s\<lparr>back_buffer := (back_buffer s)\<lparr>cells :=
        blit_spec (cells (back_buffer s)) (width (back_buffer s)) x y w (int (length cs) div w) cs\<rparr>\<rparr>)
    \<and> Blit s x y w (take (nat (int (length cs) div w * w)) cs) = Blit s x y w cs"
proof
  let ?h = "int (length cs) div w"
  let ?t = "take (nat (?h * w)) cs"
  show 1: "Blit s x y w cs =
      Inr (s\<lparr>back_buffer := (back_buffer s)\<lparr>cells :=
        blit_spec (cells (back_buffer s)) (width (back_buffer s)) x y w ?h cs\<rparr>\<rparr>)"
    by (rule Blit_in_bounds [OF ok w x y len])
  have h0: "0 \<le> ?h" using w by (simp add: pos_imp_zdiv_nonneg_iff)
  have hw: "?h * w \<le> int (length cs)"
    using w by (metis div_mult_mod_eq le_add_same_cancel1 pos_mod_sign)
  have hw0: "0 \<le> ?h * w" using h0 w by simp
  have lt: "int (length ?t) = ?h * w" using hw hw0 by simp
  have ht: "int (length ?t) div w = ?h" using w unfolding lt by simp
  have yt: "y + int (length ?t) div w \<le> height (back_buffer s)" using y(2) by (simp only: ht)
  have lent: "int (length ?t) < 9223372036854775808" using len hw unfolding lt by linarith
  have "Blit s x y w ?t =
      Inr (s\<lparr>back_buffer := (back_buffer s)\<lparr>cells :=
        blit_spec (cells (back_buffer s)) (width (back_buffer s)) x y w ?h ?t\<rparr>\<rparr>)"
    using Blit_in_bounds [OF ok w x y(1) yt lent] by (simp only: ht)
  also have "blit_spec (cells (back_buffer s)) (width (back_buffer s)) x y w ?h ?t =
      blit_spec (cells (back_buffer s)) (width (back_buffer s)) x y w ?h cs"
    by (rule blit_spec_take [OF w h0 hw])
  finally show "Blit s x y w ?t = Blit s x y w cs" using 1 by simp
qed

lemma upt6: "[0..<6] = [0, 1, 2, 3, 4, 5]"
  by (simp add: upt_rec)

theorem Blit_copies_whole_rows_witness:
  "grid_ok (back_buffer demo) \<and> (0::int) < 2 \<and> (1::int) + 2 \<le> width (back_buffer demo)
   \<and> 0 + int (length [glyph 1, glyph 2, glyph 3, glyph 4, glyph 5]) div 2 \<le> height (back_buffer demo)
   \<and> Blit demo 1 0 2 [glyph 1, glyph 2, glyph 3, glyph 4, glyph 5] =
       Inr (demo\<lparr>back_buffer := demo_grid\<lparr>cells :=
          [blank, glyph 1, glyph 2, blank, glyph 3, glyph 4]\<rparr>\<rparr>)
   \<and> Blit demo 1 0 2 [glyph 1, glyph 2, glyph 3, glyph 4] =
       Blit demo 1 0 2 [glyph 1, glyph 2, glyph 3, glyph 4, glyph 5]"
  using Blit_copies_whole_rows [of demo 2 1 0 "[glyph 1, glyph 2, glyph 3, glyph 4, glyph 5]"]
  by (simp add: demo_def demo_grid_def grid_ok_def blit_spec_def upt6 Let_def)

text \<open>
  C9. With w = 0 the division len(cells)/w panics. With w > 0 the division does not
  panic, and a Blit that is in bounds on a well-formed grid returns normally
  (\<open>Blit_in_bounds\<close>). But Blit can still panic with w > 0: the test x+w > width is
  made on the wrapped sum, so for x = 9223372036854775807 and w = 1 the sum is negative,
  the test does not fire, and the slice expression dst[dsti:dsti+w] panics with its
  bounds out of range. The rectangle does not fit, and the call is not discarded.
\<close>

theorem Blit_panics_on_wrapped_bound:
  "Blit s x y 0 cs = Inl (DivideByZero, s)
   \<and> Blit demo 9223372036854775807 0 1 [mark] = Inl (SliceBoundsOutOfRange, demo)"
  by (simp add: Blit_def Let_def demo_def demo_grid_def int64_def blit_loop.simps [of 0]
      slice_ok_def)

lemma Blit_never_divides_by_zero:
  "w \<noteq> 0 \<Longrightarrow> Blit s x y w cs \<noteq> Inl (DivideByZero, s')"
proof -
  have l: "blit_loop i h w bw src dsti srci dst \<noteq> Inl (DivideByZero, d)" for i h bw src dsti srci dst d
    by (induction i h w bw src dsti srci dst rule: blit_loop.induct)
      (subst blit_loop.simps, simp)
  assume "w \<noteq> 0"
  then show ?thesis
    using l by (auto simp: Blit_def Let_def split: sum.splits)
qed

subsection \<open>SetInputMode\<close>

text \<open>
  C8. SetInputMode(InputCurrent) returns the current input mode and leaves the session as
  it is; SetInputMode(InputEsc) and SetInputMode(InputAlt) store the mode given, return
  it, and change no other part of the session.
\<close>

theorem SetInputMode_query_or_set:
  "SetInputMode s InputCurrent = (s, input_mode s) \<and>
   SetInputMode s InputEsc = (s\<lparr>input_mode := InputEsc\<rparr>, InputEsc) \<and>
   SetInputMode s InputAlt = (s\<lparr>input_mode := InputAlt\<rparr>, InputAlt)"
  by (simp add: SetInputMode_def InputCurrent_def InputEsc_def InputAlt_def)

subsection \<open>SetCursor and HideCursor\<close>

text \<open>
  C5. SetCursor(x,y) appends to what was in the output buffer; among what it appends,
  the show-cursor sequence occurs once when the stored position is hidden and (x,y) is
  not, and not at all otherwise; the hide-cursor sequence occurs once when the stored
  position is visible and (x,y) is hidden, and not at all otherwise; so a transition
  between two visible or two hidden positions emits neither. HideCursor() is
  SetCursor(hidden, hidden). This holds for whichever test of hiddenness the package
  uses.
\<close>

theorem SetCursor_show_hide_on_transitions:
  "outbuf (SetCursor hid s x y) = outbuf s @ emitted s (SetCursor hid s x y)
   \<and> count_list (emitted s (SetCursor hid s x y)) (WriteString t_show_cursor) =
       (if hid (cursor_x s) (cursor_y s) \<and> \<not> hid x y then 1 else 0)
   \<and> count_list (emitted s (SetCursor hid s x y)) (WriteString t_hide_cursor) =
       (if \<not> hid (cursor_x s) (cursor_y s) \<and> hid x y then 1 else 0)
   \<and> HideCursor hid s = SetCursor hid s cursor_hidden cursor_hidden"
  by (simp add: SetCursor_def HideCursor_def emitted_def Let_def)

theorem SetCursor_show_hide_on_transitions_witness:
  "emitted demo (SetCursor hidden_pair demo 5 5) =
     [WriteString t_show_cursor, Fprintf t_move_cursor [6, 6]]
   \<and> emitted (SetCursor hidden_pair demo 5 5) (SetCursor hidden_pair (SetCursor hidden_pair demo 5 5) 6 6) =
     [Fprintf t_move_cursor [7, 7]]
   \<and> emitted (SetCursor hidden_pair demo 5 5) (HideCursor hidden_pair (SetCursor hidden_pair demo 5 5)) =
     [WriteString t_hide_cursor]"
  using SetCursor_show_hide_on_transitions [of hidden_pair demo 5 5]
  by (simp add: SetCursor_def HideCursor_def emitted_def Let_def demo_def hidden_pair_def
      cursor_hidden_def int64_def)


text \<open>
  C3. For a visible target SetCursor emits a move-cursor sequence, but both of its
  parameters are the row: the source passes cursor_y+1 twice. SetCursor(3,7) emits the
  move with parameters (8, 8), where row 8 and column 4 are claimed and where Present,
  for the same cursor, passes (cursor_y+1, cursor_x+1).
\<close>

theorem SetCursor_move_repeats_row:
  "emitted demo (SetCursor hidden_pair demo 3 7) =
     [WriteString t_show_cursor, Fprintf t_move_cursor [8, 8]]
   \<and> emitted demo (SetCursor hidden_pair demo 3 7) \<noteq>
     [WriteString t_show_cursor, Fprintf t_move_cursor [7 + 1, 3 + 1]]"
  by (simp add: SetCursor_def emitted_def Let_def demo_def hidden_pair_def
      cursor_hidden_def int64_def)


lemma SetCursor_move_parameters:
  "\<not> hid x y \<Longrightarrow> last (outbuf (SetCursor hid s x y)) = Fprintf t_move_cursor [int64 (y + 1), int64 (y + 1)]"
  by (simp add: SetCursor_def Let_def)

subsection \<open>Present and Clear\<close>

lemma scan_frame_fields:
  assumes "scan_frame s' = scan_frame s"
  shows "back_buffer s' = back_buffer s"
    and "width (front_buffer s') = width (front_buffer s)"
    and "height (front_buffer s') = height (front_buffer s)"
    and "cursor_x s' = cursor_x s" and "cursor_y s' = cursor_y s"
    and "out s' = out s" and "sigwinch_draw s' = sigwinch_draw s"
    and "term_size s' = term_size s"
proof -
  have "back_buffer (scan_frame s') = back_buffer (scan_frame s)" using assms by simp
  then show "back_buffer s' = back_buffer s" by (simp add: scan_frame_def)
  have f: "front_buffer (scan_frame s') = front_buffer (scan_frame s)" using assms by simp
  then have "width (front_buffer (scan_frame s')) = width (front_buffer (scan_frame s))" by simp
  then show "width (front_buffer s') = width (front_buffer s)" by (simp add: scan_frame_def)
  from f have "height (front_buffer (scan_frame s')) = height (front_buffer (scan_frame s))" by simp
  then show "height (front_buffer s') = height (front_buffer s)" by (simp add: scan_frame_def)
  have "cursor_x (scan_frame s') = cursor_x (scan_frame s)" using assms by simp
  then show "cursor_x s' = cursor_x s" by (simp add: scan_frame_def)
  have "cursor_y (scan_frame s') = cursor_y (scan_frame s)" using assms by simp
  then show "cursor_y s' = cursor_y s" by (simp add: scan_frame_def)
  have "out (scan_frame s') = out (scan_frame s)" using assms by simp
  then show "out s' = out s" by (simp add: scan_frame_def)
  have "sigwinch_draw (scan_frame s') = sigwinch_draw (scan_frame s)" using assms by simp
  then show "sigwinch_draw s' = sigwinch_draw s" by (simp add: scan_frame_def)
  have "term_size (scan_frame s') = term_size (scan_frame s)" using assms by simp
  then show "term_size s' = term_size s" by (simp add: scan_frame_def)
qed

text \<open>One step of the scan, at an offset inside both cell arrays.\<close>

lemma present_cell_step:
  assumes k: "0 \<le> lo + x" "lo + x < int (length (cells (back_buffer s)))"
      "lo + x < int (length (cells (front_buffer s)))" "lo + x < 9223372036854775808"
  shows "\<exists>s'. present_cell s lo x y = Inr s' \<and> scan_frame s' = scan_frame s
     \<and> cells (front_buffer s') =
         (cells (front_buffer s))[nat (lo + x) := cells (back_buffer s) ! nat (lo + x)]"
proof -
  have e: "int64 (lo + x) = lo + x" using k by (intro int64_id) (simp add: in_int64_def)
  show ?thesis
  proof (cases "cells (back_buffer s) ! nat (lo + x) = cells (front_buffer s) ! nat (lo + x)")
    case True
    then have "present_cell s lo x y = Inr s" using k by (simp add: present_cell_def Let_def e)
    moreover have "(cells (front_buffer s))[nat (lo + x) := cells (back_buffer s) ! nat (lo + x)]
        = cells (front_buffer s)" using True by simp
    ultimately show ?thesis by simp
  next
    case False
    then show ?thesis using k
      by (simp add: present_cell_def Let_def e send_attr_def send_char_def scan_frame_def)
  qed
qed

lemma present_cell_synced:
  assumes k: "0 \<le> lo + x" "lo + x < int (length (cells (back_buffer s)))"
      "lo + x < 9223372036854775808"
    and eq: "cells (front_buffer s) = cells (back_buffer s)"
  shows "present_cell s lo x y = Inr s"
proof -
  have e: "int64 (lo + x) = lo + x" using k by (intro int64_id) (simp add: in_int64_def)
  show ?thesis using k eq by (simp add: present_cell_def Let_def e)
qed

lemma present_row_scan:
  fixes lo W N :: int
  assumes lo: "0 \<le> lo" "lo + W \<le> N" and N: "N < 9223372036854775808"
  shows "width (front_buffer s) = W \<Longrightarrow> int (length (cells (back_buffer s))) = N \<Longrightarrow>
     int (length (cells (front_buffer s))) = N \<Longrightarrow> 0 \<le> x \<Longrightarrow> x \<le> W \<Longrightarrow>
     \<exists>s'. present_row s lo y x = Inr s' \<and> scan_frame s' = scan_frame s
       \<and> length (cells (front_buffer s')) = length (cells (front_buffer s))
       \<and> (\<forall>k < length (cells (front_buffer s)). cells (front_buffer s') ! k =
            (if lo + x \<le> int k \<and> int k < lo + W then cells (back_buffer s) ! k
             else cells (front_buffer s) ! k))"
proof (induction "nat (W - x)" arbitrary: x s)
  case 0
  then have "x = W" by simp
  with 0 have "present_row s lo y x = Inr s" by (simp add: present_row.simps [of s lo y W])
  then show ?case using \<open>x = W\<close> by auto
next
  case (Suc n)
  then have x: "0 \<le> x" "x < W" by linarith+
  let ?k0 = "nat (lo + x)"
  have k: "0 \<le> lo + x" "lo + x < int (length (cells (back_buffer s)))"
      "lo + x < int (length (cells (front_buffer s)))" "lo + x < 9223372036854775808"
    using x lo N Suc.prems by linarith+
  from present_cell_step [OF k, of y] obtain s1 where
    c: "present_cell s lo x y = Inr s1" and f1: "scan_frame s1 = scan_frame s"
    and u: "cells (front_buffer s1) = (cells (front_buffer s))[?k0 := cells (back_buffer s) ! ?k0]"
    by blast
  note ff = scan_frame_fields [OF f1]
  have l1: "length (cells (front_buffer s1)) = length (cells (front_buffer s))" using u by simp
  have n: "n = nat (W - (x + 1))" using Suc.hyps(2) by linarith
  have "\<exists>s'. present_row s1 lo y (x + 1) = Inr s' \<and> scan_frame s' = scan_frame s1
       \<and> length (cells (front_buffer s')) = length (cells (front_buffer s1))
       \<and> (\<forall>k < length (cells (front_buffer s1)). cells (front_buffer s') ! k =
            (if lo + (x + 1) \<le> int k \<and> int k < lo + W then cells (back_buffer s1) ! k
             else cells (front_buffer s1) ! k))"
    using x Suc.prems ff l1 by (intro Suc.hyps(1) [OF n]) simp_all
  then obtain s' where r: "present_row s1 lo y (x + 1) = Inr s'"
    and f2: "scan_frame s' = scan_frame s1"
    and l2: "length (cells (front_buffer s')) = length (cells (front_buffer s1))"
    and v: "\<forall>k < length (cells (front_buffer s1)). cells (front_buffer s') ! k =
            (if lo + (x + 1) \<le> int k \<and> int k < lo + W then cells (back_buffer s1) ! k
             else cells (front_buffer s1) ! k)"
    by blast
  have run: "present_row s lo y x = Inr s'"
    using x Suc.prems(1) c r by (simp add: present_row.simps [of s lo y x])
  have cellwise: "cells (front_buffer s') ! k =
            (if lo + x \<le> int k \<and> int k < lo + W then cells (back_buffer s) ! k
             else cells (front_buffer s) ! k)" if kk: "k < length (cells (front_buffer s))" for k
  proof (cases "k = ?k0")
    case True
    then have ik: "int k = lo + x" using k by simp
    have "cells (front_buffer s') ! k = cells (front_buffer s1) ! k"
      using v kk l1 ik by simp
    also have "\<dots> = cells (back_buffer s) ! k" using u True kk by simp
    finally show ?thesis using ik x by simp
  next
    case False
    then have ik: "int k \<noteq> lo + x" using k by linarith
    have "cells (front_buffer s1) ! k = cells (front_buffer s) ! k" using u False by simp
    moreover have "cells (front_buffer s') ! k =
            (if lo + (x + 1) \<le> int k \<and> int k < lo + W then cells (back_buffer s1) ! k
             else cells (front_buffer s1) ! k)" using v kk l1 by simp
    moreover have "(lo + (x + 1) \<le> int k \<and> int k < lo + W) = (lo + x \<le> int k \<and> int k < lo + W)"
      using ik by linarith
    ultimately show ?thesis using ff(1) by simp
  qed
  show ?case
    using run f1 f2 l1 l2 cellwise by (intro exI [of _ s']) simp
qed

lemma present_row_synced:
  fixes lo W N :: int
  assumes lo: "0 \<le> lo" "lo + W \<le> N" and N: "N < 9223372036854775808"
    and s: "width (front_buffer s) = W" "int (length (cells (back_buffer s))) = N"
      "cells (front_buffer s) = cells (back_buffer s)"
  shows "0 \<le> x \<Longrightarrow> x \<le> W \<Longrightarrow> present_row s lo y x = Inr s"
proof (induction "nat (W - x)" arbitrary: x)
  case 0
  then have "x = W" by simp
  with s show ?case by (simp add: present_row.simps [of s lo y W])
next
  case (Suc n)
  then have x: "0 \<le> x" "x < W" by linarith+
  have k: "0 \<le> lo + x" "lo + x < int (length (cells (back_buffer s)))"
      "lo + x < 9223372036854775808"
    using x lo N s by linarith+
  note c = present_cell_synced [OF k s(3), of y]
  have n: "n = nat (W - (x + 1))" using Suc.hyps(2) by linarith
  have "present_row s lo y (x + 1) = Inr s" using x by (intro Suc.hyps(1) [OF n]) linarith+
  then show ?case using x s(1) c by (simp add: present_row.simps [of s lo y x])
qed

lemma row_offset_bounds:
  fixes y W H :: int
  assumes "0 \<le> W" "0 \<le> y" "y < H"
  shows "0 \<le> y * W" "y * W + W \<le> W * H"
proof -
  show "0 \<le> y * W" using assms by simp
  have "(y + 1) * W \<le> H * W" using assms by (intro mult_right_mono) linarith+
  then show "y * W + W \<le> W * H" by (simp add: algebra_simps)
qed

lemma present_rows_scan:
  fixes W H :: int
  assumes W: "0 \<le> W" and lim: "W * H < 9223372036854775808"
  shows "width (front_buffer s) = W \<Longrightarrow> height (front_buffer s) = H \<Longrightarrow>
     int (length (cells (back_buffer s))) = W * H \<Longrightarrow>
     int (length (cells (front_buffer s))) = W * H \<Longrightarrow> 0 \<le> y \<Longrightarrow> y \<le> H \<Longrightarrow>
     \<exists>s'. present_rows s y = Inr s' \<and> scan_frame s' = scan_frame s
       \<and> length (cells (front_buffer s')) = length (cells (front_buffer s))
       \<and> (\<forall>k < length (cells (front_buffer s)). cells (front_buffer s') ! k =
            (if y * W \<le> int k then cells (back_buffer s) ! k else cells (front_buffer s) ! k))"
proof (induction "nat (H - y)" arbitrary: y s)
  case 0
  then have "y = H" by simp
  with 0 have "present_rows s y = Inr s" by (simp add: present_rows.simps [of s H])
  moreover have "\<not> H * W \<le> int k" if "k < length (cells (front_buffer s))" for k
    using that "0.prems"(4) by (simp add: mult.commute)
  ultimately show ?case using \<open>y = H\<close> by auto
next
  case (Suc n)
  then have y: "0 \<le> y" "y < H" by linarith+
  note b = row_offset_bounds [OF W y]
  have e: "int64 (y * W) = y * W" using b lim W by (intro int64_id) (simp add: in_int64_def)
  from present_row_scan [OF b lim Suc.prems(1,3,4) order_refl W, of y]
  obtain s1 where r: "present_row s (y * W) y 0 = Inr s1" and f1: "scan_frame s1 = scan_frame s"
    and l1: "length (cells (front_buffer s1)) = length (cells (front_buffer s))"
    and u: "\<forall>k < length (cells (front_buffer s)). cells (front_buffer s1) ! k =
            (if y * W + 0 \<le> int k \<and> int k < y * W + W then cells (back_buffer s) ! k
             else cells (front_buffer s) ! k)"
    by blast
  note ff = scan_frame_fields [OF f1]
  have n: "n = nat (H - (y + 1))" using Suc.hyps(2) by linarith
  have "\<exists>s'. present_rows s1 (y + 1) = Inr s' \<and> scan_frame s' = scan_frame s1
       \<and> length (cells (front_buffer s')) = length (cells (front_buffer s1))
       \<and> (\<forall>k < length (cells (front_buffer s1)). cells (front_buffer s') ! k =
            (if (y + 1) * W \<le> int k then cells (back_buffer s1) ! k else cells (front_buffer s1) ! k))"
    using y Suc.prems ff l1 by (intro Suc.hyps(1) [OF n]) simp_all
  then obtain s' where rr: "present_rows s1 (y + 1) = Inr s'"
    and f2: "scan_frame s' = scan_frame s1"
    and l2: "length (cells (front_buffer s')) = length (cells (front_buffer s1))"
    and v: "\<forall>k < length (cells (front_buffer s1)). cells (front_buffer s') ! k =
            (if (y + 1) * W \<le> int k then cells (back_buffer s1) ! k else cells (front_buffer s1) ! k)"
    by blast
  have run: "present_rows s y = Inr s'"
    using y Suc.prems(1,2) r rr by (simp add: present_rows.simps [of s y] Let_def e)
  have yw: "(y + 1) * W = y * W + W" by (simp add: algebra_simps)
  have cellwise: "cells (front_buffer s') ! k =
            (if y * W \<le> int k then cells (back_buffer s) ! k else cells (front_buffer s) ! k)"
    if kk: "k < length (cells (front_buffer s))" for k
  proof -
    have a: "cells (front_buffer s') ! k =
            (if y * W + W \<le> int k then cells (back_buffer s) ! k else cells (front_buffer s1) ! k)"
      using v kk l1 ff(1) yw by simp
    have c: "cells (front_buffer s1) ! k =
            (if y * W \<le> int k \<and> int k < y * W + W then cells (back_buffer s) ! k
             else cells (front_buffer s) ! k)"
      using u kk by simp
    show ?thesis unfolding a c using W by auto
  qed
  show ?case
    using run f1 f2 l1 l2 cellwise by (intro exI [of _ s']) simp
qed

lemma present_rows_synced:
  fixes W H :: int
  assumes W: "0 \<le> W" and lim: "W * H < 9223372036854775808"
    and s: "width (front_buffer s) = W" "height (front_buffer s) = H"
      "int (length (cells (back_buffer s))) = W * H"
      "cells (front_buffer s) = cells (back_buffer s)"
  shows "0 \<le> y \<Longrightarrow> y \<le> H \<Longrightarrow> present_rows s y = Inr s"
proof (induction "nat (H - y)" arbitrary: y)
  case 0
  then have "y = H" by simp
  with s show ?case by (simp add: present_rows.simps [of s H])
next
  case (Suc n)
  then have y: "0 \<le> y" "y < H" by linarith+
  note b = row_offset_bounds [OF W y]
  have e: "int64 (y * W) = y * W" using b lim W by (intro int64_id) (simp add: in_int64_def)
  note r = present_row_synced [OF b lim s(1,3,4) order_refl W, of y]
  have n: "n = nat (H - (y + 1))" using Suc.hyps(2) by linarith
  have "present_rows s (y + 1) = Inr s" using y by (intro Suc.hyps(1) [OF n]) linarith+
  then show ?case using y s(1,2) r by (simp add: present_rows.simps [of s y] Let_def e)
qed

lemma cellbuf_resize_fields:
  "width (cellbuf_resize fg bg w h) = w" "height (cellbuf_resize fg bg w h) = h"
  "length (cells (cellbuf_resize fg bg w h)) = nat (w * h)"
  by (simp_all add: cellbuf_resize_def cellbuf_clear_def cellbuf_init_def)

lemma cellbuf_resize_ok:
  assumes "0 \<le> w" "w < 9223372036854775808" "0 \<le> h" "h < 9223372036854775808"
    "w * h < 9223372036854775808"
  shows "grid_ok (cellbuf_resize fg bg w h)"
  using assms by (simp add: grid_ok_def cellbuf_resize_fields)

lemma select_sigwinch_draw_consumed: "\<not> sigwinch_draw (select_sigwinch_draw s)"
  by (simp add: select_sigwinch_draw_def update_size_def Let_def)

lemma select_sigwinch_draw_none: "\<not> sigwinch_draw s \<Longrightarrow> select_sigwinch_draw s = s"
  by (simp add: select_sigwinch_draw_def)

lemma select_sigwinch_draw_pending:
  assumes "sigwinch_draw s"
  shows "back_buffer (select_sigwinch_draw s) =
           cellbuf_resize (foreground s) (background s) (int (fst (term_size s))) (int (snd (term_size s)))"
    and "front_buffer (select_sigwinch_draw s) = back_buffer (select_sigwinch_draw s)"
    and "termw (select_sigwinch_draw s) = int (fst (term_size s))"
    and "termh (select_sigwinch_draw s) = int (snd (term_size s))"
  using assms by (simp_all add: select_sigwinch_draw_def update_size_def Let_def)

lemma select_sigwinch_draw_frame:
  "cursor_x (select_sigwinch_draw s) = cursor_x s" "cursor_y (select_sigwinch_draw s) = cursor_y s"
  "outbuf (select_sigwinch_draw s) = outbuf s" "out (select_sigwinch_draw s) = out s"
  "term_size (select_sigwinch_draw s) = term_size s"
  "foreground (select_sigwinch_draw s) = foreground s"
  "background (select_sigwinch_draw s) = background s"
  by (simp_all add: select_sigwinch_draw_def update_size_def Let_def)

lemma select_sigwinch_draw_ok:
  assumes "session_ok s"
  shows "session_ok (select_sigwinch_draw s)"
proof (cases "sigwinch_draw s")
  case False
  with assms show ?thesis by (simp add: select_sigwinch_draw_none)
next
  case True
  let ?w = "int (fst (term_size s))" and ?h = "int (snd (term_size s))"
  have g: "grid_ok (cellbuf_resize (foreground s) (background s) ?w ?h)"
    using assms by (intro cellbuf_resize_ok) (simp_all add: session_ok_def)
  show ?thesis
    using assms g unfolding session_ok_def
    by (simp add: select_sigwinch_draw_pending [OF True] select_sigwinch_draw_frame)
qed

lemma select_sigwinch_draw_last:
  "select_sigwinch_draw (s\<lparr>lastx := a, lasty := b\<rparr>) = (select_sigwinch_draw s)\<lparr>lastx := a, lasty := b\<rparr>"
  by (simp add: select_sigwinch_draw_def update_size_def Let_def)

lemma select_sigwinch_draw_idem:
  "select_sigwinch_draw (select_sigwinch_draw s) = select_sigwinch_draw s"
  by (rule select_sigwinch_draw_none) (rule select_sigwinch_draw_consumed)

lemma session_ok_last: "session_ok (s\<lparr>lastx := a, lasty := b\<rparr>) = session_ok s"
  by (simp add: session_ok_def)

text \<open>The scan of a well-formed session returns, with the front grid equal to the back grid.\<close>

lemma present_rows_syncs:
  assumes ok: "session_ok s"
  shows "\<exists>s'. present_rows s 0 = Inr s' \<and> scan_frame s' = scan_frame s
     \<and> cells (front_buffer s') = cells (back_buffer s)"
proof -
  let ?W = "width (front_buffer s)" and ?H = "height (front_buffer s)"
  from ok have W: "0 \<le> ?W" and H: "0 \<le> ?H" and lim: "?W * ?H < 9223372036854775808"
    and lf: "int (length (cells (front_buffer s))) = ?W * ?H"
    and lb: "int (length (cells (back_buffer s))) = ?W * ?H"
    by (auto simp: session_ok_def grid_ok_def)
  from present_rows_scan [OF W lim refl refl lb lf order_refl H]
  obtain s' where r: "present_rows s 0 = Inr s'" and f: "scan_frame s' = scan_frame s"
    and l: "length (cells (front_buffer s')) = length (cells (front_buffer s))"
    and u: "\<forall>k < length (cells (front_buffer s)). cells (front_buffer s') ! k =
            (if 0 * ?W \<le> int k then cells (back_buffer s) ! k else cells (front_buffer s) ! k)"
    by blast
  have ll: "length (cells (front_buffer s)) = length (cells (back_buffer s))" using lf lb by linarith
  have "cells (front_buffer s') = cells (back_buffer s)"
    using l ll u by (intro nth_equalityI) simp_all
  with r f show ?thesis by blast
qed

lemma present_rows_on_synced:
  assumes ok: "session_ok s" and eq: "cells (front_buffer s) = cells (back_buffer s)"
  shows "present_rows s 0 = Inr s"
proof -
  let ?W = "width (front_buffer s)" and ?H = "height (front_buffer s)"
  from ok have W: "0 \<le> ?W" and H: "0 \<le> ?H" and lim: "?W * ?H < 9223372036854775808"
    and lb: "int (length (cells (back_buffer s))) = ?W * ?H"
    by (auto simp: session_ok_def grid_ok_def)
  show ?thesis by (rule present_rows_synced [OF W lim refl refl lb eq order_refl H])
qed

lemma Present_on_synced:
  assumes ok: "session_ok s" and eq: "cells (front_buffer s) = cells (back_buffer s)"
    and np: "\<not> sigwinch_draw s"
  shows "Present hid s =
     Inr (s\<lparr>lastx := coord_invalid, lasty := coord_invalid,
            outbuf := [], out := out s @ [outbuf s @ final_cursor_move hid s]\<rparr>)"
proof -
  let ?s1 = "s\<lparr>lastx := coord_invalid, lasty := coord_invalid\<rparr>"
  have sel: "select_sigwinch_draw ?s1 = ?s1" using np by (simp add: select_sigwinch_draw_none)
  have ok1: "session_ok ?s1" using ok by (simp add: session_ok_last)
  have eq1: "cells (front_buffer ?s1) = cells (back_buffer ?s1)" using eq by simp
  note scan = present_rows_on_synced [OF ok1 eq1]
  show ?thesis
    unfolding Present_def Let_def sel scan
    by (simp add: flush_def final_cursor_move_def)
qed

lemma Present_returns_synced:
  assumes ok: "session_ok s"
  shows "\<exists>s1. Present hid s = Inr s1 \<and> session_ok s1
     \<and> cells (front_buffer s1) = cells (back_buffer s1) \<and> outbuf s1 = [] \<and> \<not> sigwinch_draw s1"
proof -
  let ?s1 = "s\<lparr>lastx := coord_invalid, lasty := coord_invalid\<rparr>"
  let ?s2 = "select_sigwinch_draw ?s1"
  have ok2: "session_ok ?s2" using ok by (intro select_sigwinch_draw_ok) (simp add: session_ok_last)
  from present_rows_syncs [OF ok2] obtain s3 where
    r: "present_rows ?s2 0 = Inr s3" and f: "scan_frame s3 = scan_frame ?s2"
    and c: "cells (front_buffer s3) = cells (back_buffer ?s2)"
    by blast
  note ff = scan_frame_fields [OF f]
  have np: "\<not> sigwinch_draw s3" using ff(7) select_sigwinch_draw_consumed [of ?s1] by simp
  have c3: "cells (front_buffer s3) = cells (back_buffer s3)" using c ff(1) by simp
  have ok3: "session_ok s3"
    using ok2 ff c3 unfolding session_ok_def grid_ok_def by simp
  let ?s4 = "if \<not> hid (cursor_x s3) (cursor_y s3)
             then s3\<lparr>outbuf := outbuf s3 @
                    [Fprintf t_move_cursor [int64 (cursor_y s3 + 1), int64 (cursor_x s3 + 1)]]\<rparr>
             else s3"
  have p: "Present hid s = Inr (flush ?s4)"
    unfolding Present_def Let_def r by simp
  have "session_ok (flush ?s4)" using ok3 by (simp add: session_ok_def flush_def)
  moreover have "cells (front_buffer (flush ?s4)) = cells (back_buffer (flush ?s4))"
    using c3 by (simp add: flush_def)
  moreover have "outbuf (flush ?s4) = []" by (simp add: flush_def)
  moreover have "\<not> sigwinch_draw (flush ?s4)" using np by (simp add: flush_def)
  ultimately show ?thesis using p by blast
qed


text \<open>
  C4, as the code has it. On a session that satisfies the invariant, Present returns,
  and then every front-grid cell equals the corresponding back-grid cell. A second
  Present that follows at once finds no differing cell: it changes neither grid, emits
  no attribute change, no move to a cell and no character, and the one write it makes
  to the terminal is the final cursor move alone, which is empty when the cursor is
  hidden and one move-cursor sequence when it is visible.
\<close>

theorem Present_twice:
  assumes ok: "session_ok s"
  shows "\<exists>s1. Present hid s = Inr s1
     \<and> cells (front_buffer s1) = cells (back_buffer s1)
     \<and> Present hid s1 =
         Inr (s1\<lparr>lastx := coord_invalid, lasty := coord_invalid,
                 out := out s1 @ [final_cursor_move hid s1]\<rparr>)"
proof -
  from Present_returns_synced [OF ok, of hid] obtain s1 where
    p: "Present hid s = Inr s1" and ok1: "session_ok s1"
    and c: "cells (front_buffer s1) = cells (back_buffer s1)" and o: "outbuf s1 = []"
    and np: "\<not> sigwinch_draw s1"
    by blast
  have "Present hid s1 =
     Inr (s1\<lparr>lastx := coord_invalid, lasty := coord_invalid,
            outbuf := [], out := out s1 @ [outbuf s1 @ final_cursor_move hid s1]\<rparr>)"
    by (rule Present_on_synced [OF ok1 c np])
  also have "s1\<lparr>lastx := coord_invalid, lasty := coord_invalid,
            outbuf := [], out := out s1 @ [outbuf s1 @ final_cursor_move hid s1]\<rparr>
      = s1\<lparr>lastx := coord_invalid, lasty := coord_invalid,
                 out := out s1 @ [final_cursor_move hid s1]\<rparr>"
    using o by simp
  finally show ?thesis using p c by blast
qed

lemma Present_demo_changed: "Present hidden_pair demo_changed = Inr demo_presented"
  by (simp add: Present_def Let_def demo_changed_def demo_presented_def demo_def demo_grid_def
      select_sigwinch_draw_def present_rows.simps present_row.simps present_cell_def
      send_attr_def send_char_def flush_def int64_def hidden_pair_def cursor_hidden_def
      coord_invalid_def blank_def mark_def)

theorem Present_twice_witness:
  "session_ok demo_changed
   \<and> Present hidden_pair demo_changed = Inr demo_presented
   \<and> cells (front_buffer demo_presented) = cells (back_buffer demo_presented)
   \<and> Present hidden_pair demo_presented =
       Inr (demo_presented\<lparr>lastx := coord_invalid, lasty := coord_invalid,
              out := out demo_presented @ [[]]\<rparr>)"
proof -
  have ok: "session_ok demo_changed"
    by (simp add: session_ok_def grid_ok_def demo_changed_def demo_def demo_grid_def)
  have h: "final_cursor_move hidden_pair demo_presented = []"
    by (simp add: final_cursor_move_def hidden_pair_def cursor_hidden_def demo_presented_def
        demo_changed_def demo_def)
  from Present_twice [OF ok, of hidden_pair] show ?thesis
    using ok h by (auto simp: Present_demo_changed)
qed


text \<open>
  The claim as stated, with the output of the second call empty, fails when the cursor is
  visible: with the cursor at (1,0) and nothing to draw, the second Present writes the
  move-cursor sequence for row 1, column 2 again.
\<close>

theorem Present_second_call_moves_cursor:
  "Present hidden_pair demo_visible =
     Inr (demo_visible\<lparr>out := [[Fprintf t_move_cursor [1, 2]]]\<rparr>)
   \<and> Present hidden_pair (demo_visible\<lparr>out := [[Fprintf t_move_cursor [1, 2]]]\<rparr>) =
     Inr (demo_visible\<lparr>out := [[Fprintf t_move_cursor [1, 2]], [Fprintf t_move_cursor [1, 2]]]\<rparr>)
   \<and> [Fprintf t_move_cursor [1, 2]] \<noteq> []"
  by (simp add: Present_def Let_def demo_visible_def demo_def demo_grid_def
      select_sigwinch_draw_def present_rows.simps present_row.simps present_cell_def
      flush_def int64_def hidden_pair_def cursor_hidden_def coord_invalid_def)


text \<open>
  C6. In every Present call the non-blocking select on the draw-side resize channel runs
  before the scan of the cells: the scan is applied to the session that the select
  returns. In that session no notification is pending; if one was pending, both grids
  have been resized to the geometry that the terminal reports (same width, same height,
  width times height cells) and otherwise the select has changed nothing. So Present on
  a session is Present on the session with the resize already taken. Clear likewise
  clears the back grid of the session that the select returns.
\<close>

theorem Present_Clear_consume_resize_first:
  "\<not> sigwinch_draw (select_sigwinch_draw s)
   \<and> (sigwinch_draw s \<longrightarrow>
        back_buffer (select_sigwinch_draw s) =
          cellbuf_resize (foreground s) (background s) (int (fst (term_size s))) (int (snd (term_size s)))
        \<and> front_buffer (select_sigwinch_draw s) = back_buffer (select_sigwinch_draw s)
        \<and> width (back_buffer (select_sigwinch_draw s)) = int (fst (term_size s))
        \<and> height (back_buffer (select_sigwinch_draw s)) = int (snd (term_size s))
        \<and> length (cells (back_buffer (select_sigwinch_draw s))) = fst (term_size s) * snd (term_size s))
   \<and> (\<not> sigwinch_draw s \<longrightarrow> select_sigwinch_draw s = s)
   \<and> Present hid s =
       (case present_rows (select_sigwinch_draw (s\<lparr>lastx := coord_invalid, lasty := coord_invalid\<rparr>)) 0 of
          Inl e \<Rightarrow> Inl e
        | Inr s3 \<Rightarrow> Inr (flush (s3\<lparr>outbuf := outbuf s3 @ final_cursor_move hid s3\<rparr>)))
   \<and> Present hid s = Present hid (select_sigwinch_draw s)
   \<and> Clear s = (select_sigwinch_draw s)\<lparr>back_buffer :=
        cellbuf_clear (foreground s) (background s) (back_buffer (select_sigwinch_draw s))\<rparr>
   \<and> Clear s = Clear (select_sigwinch_draw s)"
proof (intro conjI impI)
  show "\<not> sigwinch_draw (select_sigwinch_draw s)" by (rule select_sigwinch_draw_consumed)
next
  assume p: "sigwinch_draw s"
  note sp = select_sigwinch_draw_pending [OF p]
  show "back_buffer (select_sigwinch_draw s) =
          cellbuf_resize (foreground s) (background s) (int (fst (term_size s))) (int (snd (term_size s)))"
    by (rule sp(1))
  show "front_buffer (select_sigwinch_draw s) = back_buffer (select_sigwinch_draw s)" by (rule sp(2))
  show "width (back_buffer (select_sigwinch_draw s)) = int (fst (term_size s))"
    by (simp add: sp(1) cellbuf_resize_fields)
  show "height (back_buffer (select_sigwinch_draw s)) = int (snd (term_size s))"
    by (simp add: sp(1) cellbuf_resize_fields)
  show "length (cells (back_buffer (select_sigwinch_draw s))) = fst (term_size s) * snd (term_size s)"
    by (simp add: sp(1) cellbuf_resize_fields nat_mult_distrib)
next
  assume "\<not> sigwinch_draw s"
  then show "select_sigwinch_draw s = s" by (rule select_sigwinch_draw_none)
next
  have c: "(if \<not> hid (cursor_x t) (cursor_y t)
        then t\<lparr>outbuf := outbuf t @ [Fprintf t_move_cursor [int64 (cursor_y t + 1), int64 (cursor_x t + 1)]]\<rparr>
        else t) = t\<lparr>outbuf := outbuf t @ final_cursor_move hid t\<rparr>" for t
    by (simp add: final_cursor_move_def)
  show p: "Present hid s =
       (case present_rows (select_sigwinch_draw (s\<lparr>lastx := coord_invalid, lasty := coord_invalid\<rparr>)) 0 of
          Inl e \<Rightarrow> Inl e
        | Inr s3 \<Rightarrow> Inr (flush (s3\<lparr>outbuf := outbuf s3 @ final_cursor_move hid s3\<rparr>)))" for s
    unfolding Present_def Let_def c ..
  show "Present hid s = Present hid (select_sigwinch_draw s)"
    unfolding p by (simp only: select_sigwinch_draw_last select_sigwinch_draw_idem)
next
  show c: "Clear s = (select_sigwinch_draw s)\<lparr>back_buffer :=
        cellbuf_clear (foreground s) (background s) (back_buffer (select_sigwinch_draw s))\<rparr>"
    by (simp add: Clear_def Let_def select_sigwinch_draw_frame)
  show "Clear s = Clear (select_sigwinch_draw s)"
    by (simp add: Clear_def Let_def select_sigwinch_draw_idem)
qed

theorem Present_Clear_consume_resize_first_witness:
  "sigwinch_draw demo_resized
   \<and> width (back_buffer (select_sigwinch_draw demo_resized)) = 2
   \<and> height (back_buffer (select_sigwinch_draw demo_resized)) = 1
   \<and> Present hidden_pair demo_resized =
       Inr (demo_resized\<lparr>sigwinch_draw := False, termw := 2, termh := 1,
              back_buffer := \<lparr>width = 2, height = 1, cells = [blank, blank]\<rparr>,
              front_buffer := \<lparr>width = 2, height = 1, cells = [blank, blank]\<rparr>,
              out := [[]]\<rparr>)
   \<and> Clear demo_resized =
       demo_resized\<lparr>sigwinch_draw := False, termw := 2, termh := 1,
              back_buffer := \<lparr>width = 2, height = 1, cells = [blank, blank]\<rparr>,
              front_buffer := \<lparr>width = 2, height = 1, cells = [blank, blank]\<rparr>\<rparr>"
  using Present_Clear_consume_resize_first [of demo_resized hidden_pair]
  by (simp add: demo_resized_def demo_changed_def demo_def demo_grid_def blank_def mark_def
      select_sigwinch_draw_def update_size_def cellbuf_resize_def cellbuf_clear_def
      cellbuf_init_def Clear_def Let_def present_rows.simps present_row.simps present_cell_def
      flush_def final_cursor_move_def hidden_pair_def cursor_hidden_def coord_invalid_def
      int64_def numeral_2_eq_2)

end
